theory Spec2Isabelle
  imports Main "HOL-Library.AList"
begin

section \<open>Values and failures of the Freshworks service\<close>

text \<open>
  The service (\<open>app/services/freshworks_service.py\<close>) works on the values that
  \<open>response.json()\<close> returns: \<open>None\<close>, booleans, integers, strings, lists and
  dictionaries with string keys. A dictionary is an association list in insertion order
  (the first entry of a key is the one that counts). Python's integers are unbounded, so
  they are \<open>int\<close>. JSON numbers with a fraction or an exponent (Python floats) are not
  part of this model.
\<close>

datatype json =
    JNull
  | JBool bool
  | JInt int
  | JStr string
  | JList "json list"
  | JObj "(string \<times> json) list"

text \<open>
  Every exception of the source is a value. The first three come from the HTTP layer
  (\<open>client.get\<close>, \<open>raise_for_status\<close>, \<open>response.json\<close>), the others from the
  dynamic operations of the service itself.
\<close>

datatype error =
    RequestError string
  | HTTPStatusError int
  | JSONDecodeError
  | KeyError string
  | TypeError
  | AttributeError

subsection \<open>The dynamic operations the source uses\<close>

text \<open>Truth value testing (\<open>if x:\<close>, \<open>not x\<close>, \<open>x and y\<close>).\<close>

fun truthy :: "json \<Rightarrow> bool" where
  "truthy JNull = False"
| "truthy (JBool b) = b"
| "truthy (JInt i) = (i \<noteq> 0)"
| "truthy (JStr s) = (s \<noteq> [])"
| "truthy (JList xs) = (xs \<noteq> [])"
| "truthy (JObj kvs) = (kvs \<noteq> [])"

text \<open>\<open>x.get(k, d)\<close>: only a dictionary has the method.\<close>

fun py_get :: "json \<Rightarrow> string \<Rightarrow> json \<Rightarrow> error + json" where
  "py_get (JObj kvs) k d = Inr (case map_of kvs k of Some v \<Rightarrow> v | None \<Rightarrow> d)"
| "py_get _ k d = Inl AttributeError"

text \<open>\<open>x[k]\<close> with a string \<open>k\<close>: a missing key raises, and so does every other value.\<close>

fun py_getitem :: "json \<Rightarrow> string \<Rightarrow> error + json" where
  "py_getitem (JObj kvs) k = (case map_of kvs k of Some v \<Rightarrow> Inr v | None \<Rightarrow> Inl (KeyError k))"
| "py_getitem _ k = Inl TypeError"

text \<open>
  \<open>x[k] = v\<close> on a dictionary: an existing key keeps its place, a new key goes last.
  The source only assigns into values on which \<open>.get\<close> has already succeeded, so
  the other cases are never reached; they leave the value as it is.
\<close>

fun py_setitem :: "json \<Rightarrow> string \<Rightarrow> json \<Rightarrow> json" where
  "py_setitem (JObj kvs) k v = JObj (AList.update k v kvs)"
| "py_setitem x k v = x"

text \<open>
  Iteration (\<open>for x in v\<close>, \<open>list.extend(v)\<close>, a comprehension over \<open>v\<close>): a list
  yields its elements, a string its characters, a dictionary its keys.
\<close>

fun py_iter :: "json \<Rightarrow> error + json list" where
  "py_iter (JList xs) = Inr xs"
| "py_iter (JStr s) = Inr (map (\<lambda>c. JStr [c]) s)"
| "py_iter (JObj kvs) = Inr (map (\<lambda>kv. JStr (fst kv)) kvs)"
| "py_iter _ = Inl TypeError"

text \<open>Lists and dictionaries cannot be dictionary keys.\<close>

fun hashable :: "json \<Rightarrow> bool" where
  "hashable (JList xs) = False"
| "hashable (JObj kvs) = False"
| "hashable _ = True"

text \<open>
  Dictionary keys are compared with \<open>==\<close>, under which \<open>True\<close> is \<open>1\<close> and
  \<open>False\<close> is \<open>0\<close>. \<open>key_norm\<close> picks one representative of each class, so a
  dictionary with arbitrary hashable keys is an association list on normalised keys.
\<close>

fun key_norm :: "json \<Rightarrow> json" where
  "key_norm (JBool b) = JInt (if b then 1 else 0)"
| "key_norm x = x"

text \<open>\<open>page >= total_pages\<close> with an integer on the left.\<close>

fun py_ge :: "int \<Rightarrow> json \<Rightarrow> error + bool" where
  "py_ge p (JInt n) = Inr (p \<ge> n)"
| "py_ge p (JBool b) = Inr (p \<ge> (if b then 1 else 0))"
| "py_ge p _ = Inl TypeError"

subsection \<open>Decimal text of an integer\<close>

fun digits_nat :: "nat \<Rightarrow> string" where
  "digits_nat n =
     (if n < 10 then [''0123456789'' ! n]
      else digits_nat (n div 10) @ [''0123456789'' ! (n mod 10)])"

declare digits_nat.simps [simp del]

text \<open>\<open>str(i)\<close>, as the f-string \<open>f"Stage {stage_id}"\<close> formats an integer.\<close>

definition py_str_int :: "int \<Rightarrow> string" where
  "py_str_int i = (if i < 0 then CHR ''-'' # digits_nat (nat (- i)) else digits_nat (nat i))"

text \<open>
  The specification's side of "decimal representation": the value a string of digits
  denotes, read positionally, with an optional leading minus sign.
\<close>

definition digit_value :: "char \<Rightarrow> nat" where
  "digit_value c = of_char c - 48"

definition decimal_value :: "string \<Rightarrow> nat" where
  "decimal_value s = foldl (\<lambda>a c. 10 * a + digit_value c) 0 s"

definition is_digit :: "char \<Rightarrow> bool" where
  "is_digit c = (c \<in> set ''0123456789'')"

fun signed_decimal_value :: "string \<Rightarrow> int option" where
  "signed_decimal_value [] = None"
| "signed_decimal_value (c # cs) =
     (if c = CHR ''-'' then
        (if cs \<noteq> [] \<and> list_all is_digit cs then Some (- int (decimal_value cs)) else None)
      else if list_all is_digit (c # cs) then Some (int (decimal_value (c # cs))) else None)"

section \<open>Stage names\<close>

text \<open>The table of \<open>_get_stage_name\<close>, in the order of the source.\<close>

definition stage_map :: "(int \<times> string) list" where
  "stage_map =
     [(402001815652, ''Closed Won''),
      (402001815651, ''Closed Lost''),
      (402001821236, ''Account Not Funded''),
      (402001842536, ''Account Funded''),
      (402001815650, ''KYC Created''),
      (402001815649, ''Proposal Sent''),
      (402001815648, ''Qualified''),
      (402001815647, ''Contact Made''),
      (402001815646, ''New Lead'')]"

text \<open>
  \<open>stage_map.get(stage_id, f"Stage {stage_id}")\<close>. The lookup hashes its argument, so a
  list or a dictionary raises \<open>TypeError\<close>. A boolean is looked up as \<open>1\<close> or
  \<open>0\<close> and printed as \<open>True\<close> or \<open>False\<close>; a string and \<open>None\<close> are never keys of
  the table.
\<close>

fun get_stage_name :: "json \<Rightarrow> error + string" where
  "get_stage_name (JInt i) =
     Inr (case map_of stage_map i of Some name \<Rightarrow> name | None \<Rightarrow> ''Stage '' @ py_str_int i)"
| "get_stage_name (JBool b) =
     Inr (case map_of stage_map (if b then 1 else 0) of
            Some name \<Rightarrow> name
          | None \<Rightarrow> ''Stage '' @ (if b then ''True'' else ''False''))"
| "get_stage_name (JStr s) = Inr (''Stage '' @ s)"
| "get_stage_name JNull = Inr ''Stage None''"
| "get_stage_name (JList xs) = Inl TypeError"
| "get_stage_name (JObj kvs) = Inl TypeError"

section \<open>Requests\<close>

text \<open>
  The fields of the service object that the requests read. The constructor fills them
  from the environment; the request functions only read them.
\<close>

record service =
  base_url :: string
  contacts_view_id :: string
  deals_view_id :: string

text \<open>
  The HTTP exchange is the environment of the program: a function from the URL and the
  query parameters to the decoded body, or to the exception that \<open>client.get\<close>,
  \<open>raise_for_status\<close> or \<open>response.json\<close> raises. Within one collection the pages
  requested are 1, 2, 3 and so on, each once (\<open>run_collects\<close> below), so a function of
  the request describes a whole run.
\<close>

type_synonym transport = "string \<Rightarrow> (string \<times> json) list \<Rightarrow> error + json"

text \<open>
  \<open>_make_request\<close> sends the request and returns the decoded body. Nothing is caught:
  what the exchange raises is what the caller gets. (\<open>params or {}\<close> is the parameters
  themselves for the non-empty dictionaries the callers pass.)
\<close>

definition make_request ::
  "transport \<Rightarrow> service \<Rightarrow> string \<Rightarrow> (string \<times> json) list \<Rightarrow> error + json" where
  "make_request http self endpoint params = http (base_url self @ ''/'' @ endpoint) params"

text \<open>
  \<open>view_id\<close> is an \<open>Optional[int]\<close>, and \<open>if view_id:\<close> takes \<open>None\<close> and \<open>0\<close>
  to the configured view. The parameter \<open>include\<close> of \<open>get_all_contacts\<close> is never
  read, so the model leaves it out.
\<close>

definition get_all_contacts ::
  "transport \<Rightarrow> service \<Rightarrow> int \<Rightarrow> int \<Rightarrow> int option \<Rightarrow> error + json" where
  "get_all_contacts http self page per_page view_id =
     (let params = [(''page'', JInt page), (''per_page'', JInt per_page)];
          endpoint =
            (case view_id of
               Some v \<Rightarrow>
                 if v \<noteq> 0 then ''contacts/view/'' @ py_str_int v
                 else ''contacts/view/'' @ contacts_view_id self
             | None \<Rightarrow> ''contacts/view/'' @ contacts_view_id self)
      in make_request http self endpoint params)"

section \<open>Enrichment of deals\<close>

text \<open>
  \<open>owner_map = {user["id"]: user for user in users}\<close>, one user at a time: a user
  without \<open>id\<close> raises \<open>KeyError\<close>, a value that is not a dictionary or an
  unhashable \<open>id\<close> raises \<open>TypeError\<close>, and a later user replaces an earlier one
  with an equal \<open>id\<close>.
\<close>

fun owner_map_from :: "(json \<times> json) list \<Rightarrow> json list \<Rightarrow> error + (json \<times> json) list" where
  "owner_map_from m [] = Inr m"
| "owner_map_from m (user # users) =
     (case py_getitem user ''id'' of
        Inl e \<Rightarrow> Inl e
      | Inr k \<Rightarrow>
          if hashable k then owner_map_from (AList.update (key_norm k) user m) users
          else Inl TypeError)"

definition build_owner_map :: "json list \<Rightarrow> error + (json \<times> json) list" where
  "build_owner_map users = owner_map_from [] users"

text \<open>
  \<open>owner_id and owner_id in owner_map\<close> followed by the assignment of
  \<open>deal["owner"]\<close>: a falsy \<open>owner_id\<close> is not looked up at all, and the lookup of an
  unhashable one raises.
\<close>

definition attach_owner :: "(json \<times> json) list \<Rightarrow> json \<Rightarrow> error + json" where
  "attach_owner owner_map deal =
     (case py_get deal ''owner_id'' JNull of
        Inl e \<Rightarrow> Inl e
      | Inr owner_id \<Rightarrow>
          if truthy owner_id then
            (if hashable owner_id then
               (case map_of owner_map (key_norm owner_id) of
                  Some user \<Rightarrow> Inr (py_setitem deal ''owner'' user)
                | None \<Rightarrow> Inr deal)
             else Inl TypeError)
          else Inr deal)"

text \<open>\<open>if stage_id:\<close> followed by the assignment of \<open>deal["deal_stage"]\<close>.\<close>

definition attach_stage :: "json \<Rightarrow> error + json" where
  "attach_stage deal =
     (case py_get deal ''deal_stage_id'' JNull of
        Inl e \<Rightarrow> Inl e
      | Inr stage_id \<Rightarrow>
          if truthy stage_id then
            (case get_stage_name stage_id of
               Inl e \<Rightarrow> Inl e
             | Inr name \<Rightarrow>
                 Inr (py_setitem deal ''deal_stage''
                        (JObj [(''id'', stage_id), (''name'', JStr name)])))
          else Inr deal)"

text \<open>The body of \<open>for deal in deals\<close>, and the loop.\<close>

definition enrich_deal :: "(json \<times> json) list \<Rightarrow> json \<Rightarrow> error + json" where
  "enrich_deal owner_map deal =
     (case attach_owner owner_map deal of
        Inl e \<Rightarrow> Inl e
      | Inr deal' \<Rightarrow> attach_stage deal')"

fun enrich_deals :: "(json \<times> json) list \<Rightarrow> json list \<Rightarrow> error + json list" where
  "enrich_deals owner_map [] = Inr []"
| "enrich_deals owner_map (deal # deals) =
     (case enrich_deal owner_map deal of
        Inl e \<Rightarrow> Inl e
      | Inr deal' \<Rightarrow>
          (case enrich_deals owner_map deals of
             Inl e \<Rightarrow> Inl e
           | Inr deals' \<Rightarrow> Inr (deal' # deals')))"

text \<open>
  Lines 103 to 119 on two lists: the owner lookup is built first, then the deals are
  walked in order. \<open>enrich_result\<close> below is the same step on the decoded response
  (\<open>enrich_result_lists\<close>).
\<close>

definition enrich :: "json list \<Rightarrow> json list \<Rightarrow> error + json list" where
  "enrich users deals =
     (case build_owner_map users of
        Inl e \<Rightarrow> Inl e
      | Inr owner_map \<Rightarrow> enrich_deals owner_map deals)"

text \<open>
  The deals are changed in place, inside the list that \<open>result\<close> holds under
  \<open>deals\<close>. When the key is missing the loop runs over the default \<open>[]\<close>, and when
  the value is an empty string or dictionary it runs over nothing: \<open>result\<close> is then
  returned as it came.
\<close>

fun store_deals :: "json \<Rightarrow> json \<Rightarrow> json list \<Rightarrow> json" where
  "store_deals (JObj kvs) (JList old) new =
     (if map_of kvs ''deals'' = None then JObj kvs
      else JObj (AList.update ''deals'' (JList new) kvs))"
| "store_deals result deals new = result"

text \<open>Lines 98 to 121 of \<open>get_all_deals\<close>, on the decoded response.\<close>

definition enrich_result :: "json \<Rightarrow> error + json" where
  "enrich_result result =
     (case py_get result ''users'' (JList []) of
        Inl e \<Rightarrow> Inl e
      | Inr users \<Rightarrow>
     (case py_get result ''deals'' (JList []) of
        Inl e \<Rightarrow> Inl e
      | Inr deals \<Rightarrow>
     (case py_iter users of
        Inl e \<Rightarrow> Inl e
      | Inr us \<Rightarrow>
     (case build_owner_map us of
        Inl e \<Rightarrow> Inl e
      | Inr owner_map \<Rightarrow>
     (case py_iter deals of
        Inl e \<Rightarrow> Inl e
      | Inr ds \<Rightarrow>
     (case enrich_deals owner_map ds of
        Inl e \<Rightarrow> Inl e
      | Inr ds' \<Rightarrow> Inr (store_deals result deals ds')))))))"

definition get_all_deals ::
  "transport \<Rightarrow> service \<Rightarrow> int \<Rightarrow> int \<Rightarrow> int option \<Rightarrow> string \<Rightarrow> error + json" where
  "get_all_deals http self page per_page view_id include =
     (let params = [(''page'', JInt page), (''per_page'', JInt per_page),
                    (''sort'', JStr ''amount''), (''include'', JStr include)];
          endpoint =
            (case view_id of
               Some v \<Rightarrow>
                 if v \<noteq> 0 then ''deals/view/'' @ py_str_int v
                 else ''deals/view/'' @ deals_view_id self
             | None \<Rightarrow> ''deals/view/'' @ deals_view_id self)
      in case make_request http self endpoint params of
           Inl e \<Rightarrow> Inl e
         | Inr result \<Rightarrow> enrich_result result)"

section \<open>Paginated collection\<close>

text \<open>
  \<open>get_all_contacts_paginated\<close> and \<open>get_all_deals_paginated\<close> are the same loop,
  line by line, over a different page function and a different key. The loop is written
  once, with both as parameters. One pass through the body either raises, leaves the loop
  with the items collected so far (\<open>break\<close>), or goes on to the next page.
\<close>

datatype outcome = Raise error | Break "json list" | Continue "json list"

definition loop_body :: "string \<Rightarrow> error + json \<Rightarrow> int \<Rightarrow> json list \<Rightarrow> outcome" where
  "loop_body key fetched page all_items =
     (case fetched of
        Inl e \<Rightarrow> Raise e
      | Inr result \<Rightarrow>
     (case py_get result key (JList []) of
        Inl e \<Rightarrow> Raise e
      | Inr items \<Rightarrow>
          if \<not> truthy items then Break all_items
          else
     (case py_iter items of
        Inl e \<Rightarrow> Raise e
      | Inr xs \<Rightarrow>
     (case py_get result ''meta'' (JObj []) of
        Inl e \<Rightarrow> Raise e
      | Inr meta \<Rightarrow>
     (case py_get meta ''total_pages'' (JInt 1) of
        Inl e \<Rightarrow> Raise e
      | Inr total_pages \<Rightarrow>
     (case py_ge page total_pages of
        Inl e \<Rightarrow> Raise e
      | Inr stop \<Rightarrow>
          if stop then Break (all_items @ xs) else Continue (all_items @ xs)))))))"

text \<open>
  The loop returns the page numbers it requested, in order, next to what the caller
  gets: the exception or the list.
\<close>

function paginated_loop ::
  "string \<Rightarrow> (int \<Rightarrow> error + json) \<Rightarrow> int \<Rightarrow> int \<Rightarrow> json list \<Rightarrow> int list
     \<Rightarrow> int list \<times> (error + json list)" where
  "paginated_loop key get_page max_pages page all_items requested =
     (if page \<le> max_pages then
        (case loop_body key (get_page page) page all_items of
           Raise e \<Rightarrow> (requested @ [page], Inl e)
         | Break items \<Rightarrow> (requested @ [page], Inr items)
         | Continue items \<Rightarrow>
             paginated_loop key get_page max_pages (page + 1) items (requested @ [page]))
      else (requested, Inr all_items))"
  by pat_completeness auto
termination
  by (relation "measure (\<lambda>(key, get_page, max_pages, page, all_items, requested).
                   nat (max_pages + 1 - page))") auto

declare paginated_loop.simps [simp del]

definition get_all_contacts_paginated ::
  "transport \<Rightarrow> service \<Rightarrow> int \<Rightarrow> int list \<times> (error + json list)" where
  "get_all_contacts_paginated http self max_pages =
     paginated_loop ''contacts'' (\<lambda>page. get_all_contacts http self page 100 None)
       max_pages 1 [] []"

definition get_all_deals_paginated ::
  "transport \<Rightarrow> service \<Rightarrow> int \<Rightarrow> int list \<times> (error + json list)" where
  "get_all_deals_paginated http self max_pages =
     paginated_loop ''deals'' (\<lambda>page. get_all_deals http self page 100 None ''owner'')
       max_pages 1 [] []"

section \<open>Notions the properties are stated with\<close>

text \<open>\<open>d.get(k)\<close> on the entries of a dictionary: \<open>None\<close> when the key is missing.\<close>

definition get_or_none :: "(string \<times> json) list \<Rightarrow> string \<Rightarrow> json" where
  "get_or_none kvs k = (case map_of kvs k of Some v \<Rightarrow> v | None \<Rightarrow> JNull)"

text \<open>
  A user whose \<open>id\<close> equals \<open>k\<close> (as dictionary keys are equal), and the last such
  user of a list: the one the specification's "later one wins" selects.
\<close>

definition has_id :: "json \<Rightarrow> json \<Rightarrow> bool" where
  "has_id k user =
     (case py_getitem user ''id'' of Inr i \<Rightarrow> key_norm i = key_norm k | Inl e \<Rightarrow> False)"

definition last_user_with_id :: "json \<Rightarrow> json list \<Rightarrow> json option" where
  "last_user_with_id k users = find (has_id k) (rev users)"

text \<open>
  The items one fetched page contributes to the collection: what the loop appends for
  it, and nothing for a page on which the loop stops before appending.
\<close>

definition page_items :: "string \<Rightarrow> error + json \<Rightarrow> json list" where
  "page_items key fetched =
     (case fetched of
        Inl e \<Rightarrow> []
      | Inr result \<Rightarrow>
          (case py_get result key (JList []) of
             Inl e \<Rightarrow> []
           | Inr items \<Rightarrow>
               if truthy items then (case py_iter items of Inl e \<Rightarrow> [] | Inr xs \<Rightarrow> xs)
               else []))"

text \<open>
  A page as the server is meant to send it: the fetch succeeded, the items are a list
  (or the key is missing), the metadata is a dictionary (or missing) and \<open>total_pages\<close>
  an integer (or missing).
\<close>

definition well_formed_page :: "string \<Rightarrow> error + json \<Rightarrow> bool" where
  "well_formed_page key fetched =
     (case fetched of
        Inl e \<Rightarrow> False
      | Inr result \<Rightarrow>
          (case py_get result key (JList []) of
             Inr (JList xs) \<Rightarrow>
               (case py_get result ''meta'' (JObj []) of
                  Inr meta \<Rightarrow>
                    (case py_get meta ''total_pages'' (JInt 1) of
                       Inr (JInt n) \<Rightarrow> True
                     | _ \<Rightarrow> False)
                | Inl e \<Rightarrow> False)
           | _ \<Rightarrow> False))"

text \<open>
  A page that announces more pages after itself: it has items, and its \<open>total_pages\<close>
  is an integer greater than the page's own number.
\<close>

definition announces_more :: "string \<Rightarrow> error + json \<Rightarrow> int \<Rightarrow> bool" where
  "announces_more key fetched page =
     (case fetched of
        Inl e \<Rightarrow> False
      | Inr result \<Rightarrow>
          (case py_get result key (JList []) of
             Inr (JList xs) \<Rightarrow>
               xs \<noteq> [] \<and>
               (case py_get result ''meta'' (JObj []) of
                  Inr meta \<Rightarrow>
                    (case py_get meta ''total_pages'' (JInt 1) of
                       Inr (JInt n) \<Rightarrow> page < n
                     | _ \<Rightarrow> False)
                | Inl e \<Rightarrow> False)
           | _ \<Rightarrow> False))"

section \<open>Example servers\<close>

definition example_service :: service where
  "example_service =
     \<lparr>base_url = ''https://example.myfreshworks.com/crm/sales/api'',
      contacts_view_id = ''402014829835'',
      deals_view_id = ''402014829847''\<rparr>"

definition item :: "int \<Rightarrow> json" where
  "item n = JObj [(''id'', JInt n)]"

definition example_page :: "json list \<Rightarrow> json \<Rightarrow> json" where
  "example_page items total_pages =
     JObj [(''contacts'', JList items), (''deals'', JList items),
           (''meta'', JObj [(''total_pages'', total_pages)])]"

text \<open>Three pages of a view that changes between the requests, so that the pages overlap.\<close>

definition three_pages :: transport where
  "three_pages url params =
     (if map_of params ''page'' = Some (JInt 1) then Inr (example_page [item 1, item 2] (JInt 3))
      else if map_of params ''page'' = Some (JInt 2) then Inr (example_page [item 2, item 3] (JInt 3))
      else if map_of params ''page'' = Some (JInt 3) then Inr (example_page [item 3] (JInt 3))
      else Inr (example_page [] (JInt 3)))"

text \<open>A server that answers the first page and fails afterwards.\<close>

definition failing_second_page :: transport where
  "failing_second_page url params =
     (if map_of params ''page'' = Some (JInt 1) then Inr (example_page [item 1, item 2] (JInt 3))
      else Inl (HTTPStatusError 500))"




definition page_with_zero_total :: transport where
  "page_with_zero_total url params = Inr (example_page [item 1] (JInt 0))"

section \<open>Decimal text reads back as the integer\<close>

lemma digits_nat_nonempty: "digits_nat n \<noteq> []"
  by (subst digits_nat.simps) simp

lemma digit_char_is_digit: "d < 10 \<Longrightarrow> is_digit (''0123456789'' ! d)"
  unfolding is_digit_def by (rule nth_mem) simp

lemma digit_char_value: "d < 10 \<Longrightarrow> digit_value (''0123456789'' ! d) = d"
proof -
  assume "d < 10"
  then have "d \<in> {0,1,2,3,4,5,6,7,8,9}" by auto
  then show ?thesis by (auto simp: digit_value_def)
qed

lemma digits_nat_all_digits: "list_all is_digit (digits_nat n)"
proof (induction n rule: digits_nat.induct)
  case (1 n)
  show ?case
  proof (cases "n < 10")
    case True
    then show ?thesis by (subst digits_nat.simps) (simp add: digit_char_is_digit)
  next
    case False
    with 1 show ?thesis by (subst digits_nat.simps) (simp add: digit_char_is_digit)
  qed
qed

lemma decimal_value_snoc: "decimal_value (s @ [c]) = 10 * decimal_value s + digit_value c"
  by (simp add: decimal_value_def)

lemma decimal_value_digits_nat: "decimal_value (digits_nat n) = n"
proof (induction n rule: digits_nat.induct)
  case (1 n)
  show ?case
  proof (cases "n < 10")
    case True
    then show ?thesis
      by (subst digits_nat.simps) (simp add: decimal_value_def digit_char_value)
  next
    case False
    with 1 show ?thesis
      by (subst digits_nat.simps) (simp add: decimal_value_snoc digit_char_value)
  qed
qed

lemma minus_not_digit: "\<not> is_digit CHR ''-''"
  by (simp add: is_digit_def)

lemma hd_digits_nat: "hd (digits_nat n) \<noteq> CHR ''-''"
proof -
  have "is_digit (hd (digits_nat n))"
    using digits_nat_all_digits [of n] digits_nat_nonempty [of n]
    by (cases "digits_nat n") simp_all
  then show ?thesis using minus_not_digit by auto
qed

lemma signed_decimal_value_py_str_int: "signed_decimal_value (py_str_int i) = Some i"
proof (cases "i < 0")
  case True
  then show ?thesis
    by (simp add: py_str_int_def digits_nat_nonempty digits_nat_all_digits
        decimal_value_digits_nat)
next
  case False
  obtain c cs where d: "digits_nat (nat i) = c # cs"
    using digits_nat_nonempty [of "nat i"] by (cases "digits_nat (nat i)") auto
  have "c \<noteq> CHR ''-''"
    using hd_digits_nat [of "nat i"] d by simp
  moreover have "list_all is_digit (c # cs)"
    using digits_nat_all_digits [of "nat i"] d by simp
  moreover have "decimal_value (c # cs) = nat i"
    using decimal_value_digits_nat [of "nat i"] d by simp
  ultimately show ?thesis
    using False d by (simp add: py_str_int_def)
qed

lemma py_str_int_999: "py_str_int 999 = ''999''"
  by (simp add: py_str_int_def digits_nat.simps [of 999] digits_nat.simps [of 99]
      digits_nat.simps [of 9])

section \<open>Stage names: the claim\<close>

text \<open>
  C6. For an integer identifier \<open>_get_stage_name\<close> is an exact-match lookup in the
  table of nine entries with pairwise different identifiers: an identifier of the table
  gets the name the table gives it, and every other integer \<open>j\<close> gets the text
  \<open>Stage\<close>, a space, and the decimal representation of \<open>j\<close> (a text that reads back as
  \<open>j\<close>).
\<close>

theorem stage_name_lookup:
  "((i, name) \<in> set stage_map \<longrightarrow> get_stage_name (JInt i) = Inr name)
   \<and> (j \<notin> fst ` set stage_map \<longrightarrow>
        get_stage_name (JInt j) = Inr (''Stage '' @ py_str_int j)
        \<and> signed_decimal_value (py_str_int j) = Some j)
   \<and> length stage_map = 9
   \<and> distinct (map fst stage_map)"
proof -
  have d: "distinct (map fst stage_map)"
    by (simp add: stage_map_def)
  have hit: "(i, name) \<in> set stage_map \<longrightarrow> get_stage_name (JInt i) = Inr name"
    using d by simp
  have miss: "j \<notin> fst ` set stage_map \<longrightarrow>
      get_stage_name (JInt j) = Inr (''Stage '' @ py_str_int j)"
  proof
    assume "j \<notin> fst ` set stage_map"
    then have "map_of stage_map j = None"
      by (simp add: map_of_eq_None_iff)
    then show "get_stage_name (JInt j) = Inr (''Stage '' @ py_str_int j)"
      by simp
  qed
  have len: "length stage_map = 9"
    by (simp add: stage_map_def)
  show ?thesis
    using d hit miss len signed_decimal_value_py_str_int [of j] by blast
qed

text \<open>The two identifiers of the specification: a hit and a miss.\<close>

theorem stage_name_lookup_witness:
  "(402001815652, ''Closed Won'') \<in> set stage_map
   \<and> get_stage_name (JInt 402001815652) = Inr ''Closed Won''
   \<and> 999 \<notin> fst ` set stage_map
   \<and> get_stage_name (JInt 999) = Inr ''Stage 999''"
  using stage_name_lookup [of 402001815652 "''Closed Won''" 999]
  by (simp add: stage_map_def py_str_int_999)

section \<open>Enrichment: what one pass does to a deal\<close>

lemma find_snoc:
  "find P (xs @ [x]) =
     (case find P xs of Some y \<Rightarrow> Some y | None \<Rightarrow> if P x then Some x else None)"
  by (induction xs) auto

lemma owner_map_from_lookup:
  "owner_map_from m users = Inr m' \<Longrightarrow>
   map_of m' (key_norm k) =
     (case last_user_with_id k users of Some u \<Rightarrow> Some u | None \<Rightarrow> map_of m (key_norm k))"
proof (induction users arbitrary: m)
  case Nil
  then show ?case by (simp add: last_user_with_id_def)
next
  case (Cons user users)
  from Cons.prems obtain i where i: "py_getitem user ''id'' = Inr i" "hashable i"
    and rest: "owner_map_from (AList.update (key_norm i) user m) users = Inr m'"
    by (auto split: sum.splits if_splits)
  have ih: "map_of m' (key_norm k) =
     (case last_user_with_id k users of Some u \<Rightarrow> Some u
      | None \<Rightarrow> map_of (AList.update (key_norm i) user m) (key_norm k))"
    using Cons.IH [OF rest] .
  have h: "has_id k user = (key_norm i = key_norm k)"
    using i by (simp add: has_id_def)
  show ?case
    using ih h
    by (auto simp: last_user_with_id_def find_snoc update_conv' split: option.splits)
qed

lemma build_owner_map_lookup:
  "build_owner_map users = Inr m \<Longrightarrow> map_of m (key_norm k) = last_user_with_id k users"
  using owner_map_from_lookup [of "[]" users m k]
  by (simp add: build_owner_map_def split: option.splits)

lemma attach_owner_obj:
  "attach_owner m (JObj kvs) =
     (if truthy (get_or_none kvs ''owner_id'') then
        (if hashable (get_or_none kvs ''owner_id'') then
           (case map_of m (key_norm (get_or_none kvs ''owner_id'')) of
              Some u \<Rightarrow> Inr (JObj (AList.update ''owner'' u kvs))
            | None \<Rightarrow> Inr (JObj kvs))
         else Inl TypeError)
      else Inr (JObj kvs))"
  by (simp add: attach_owner_def get_or_none_def split: option.splits)

lemma attach_stage_obj:
  "attach_stage (JObj kvs) =
     (if truthy (get_or_none kvs ''deal_stage_id'') then
        (case get_stage_name (get_or_none kvs ''deal_stage_id'') of
           Inl e \<Rightarrow> Inl e
         | Inr name \<Rightarrow>
             Inr (JObj (AList.update ''deal_stage''
                    (JObj [(''id'', get_or_none kvs ''deal_stage_id''), (''name'', JStr name)])
                    kvs)))
      else Inr (JObj kvs))"
  by (simp add: attach_stage_def get_or_none_def split: sum.splits)

lemma attach_owner_dict: "attach_owner m d = Inr d' \<Longrightarrow> \<exists>kvs. d = JObj kvs"
  by (cases d) (simp_all add: attach_owner_def)

lemma get_or_none_update:
  "k \<noteq> k' \<Longrightarrow> get_or_none (AList.update k' v kvs) k = get_or_none kvs k"
  by (simp add: get_or_none_def update_conv')

text \<open>
  A deal that the loop body accepts is a dictionary and comes back as one; the two
  identifiers are untouched, and the entries \<open>owner\<close> and \<open>deal_stage\<close> are as the two
  guarded assignments leave them.
\<close>

lemma enrich_deal_fields:
  assumes "enrich_deal m d = Inr d'"
  shows "\<exists>kvs kvs'. d = JObj kvs \<and> d' = JObj kvs'
     \<and> get_or_none kvs' ''owner_id'' = get_or_none kvs ''owner_id''
     \<and> get_or_none kvs' ''deal_stage_id'' = get_or_none kvs ''deal_stage_id''
     \<and> map_of kvs' ''owner'' =
         (if truthy (get_or_none kvs ''owner_id'') then
            (case map_of m (key_norm (get_or_none kvs ''owner_id'')) of
               Some u \<Rightarrow> Some u | None \<Rightarrow> map_of kvs ''owner'')
          else map_of kvs ''owner'')
     \<and> (truthy (get_or_none kvs ''owner_id'') \<longrightarrow> hashable (get_or_none kvs ''owner_id''))
     \<and> (if truthy (get_or_none kvs ''deal_stage_id'') then
           (\<exists>name. get_stage_name (get_or_none kvs ''deal_stage_id'') = Inr name
              \<and> map_of kvs' ''deal_stage'' =
                  Some (JObj [(''id'', get_or_none kvs ''deal_stage_id''), (''name'', JStr name)]))
         else map_of kvs' ''deal_stage'' = map_of kvs ''deal_stage'')"
proof -
  from assms obtain d1 where a: "attach_owner m d = Inr d1" and s: "attach_stage d1 = Inr d'"
    by (auto simp: enrich_deal_def split: sum.splits)
  from a obtain kvs where d: "d = JObj kvs"
    using attach_owner_dict by blast
  from a d obtain kvs1 where d1: "d1 = JObj kvs1"
    by (auto simp: attach_owner_obj split: if_splits option.splits)
  from s d1 obtain kvs' where d': "d' = JObj kvs'"
    by (auto simp: attach_stage_obj split: if_splits sum.splits)
  have o1: "get_or_none kvs1 ''owner_id'' = get_or_none kvs ''owner_id''"
    and s1: "get_or_none kvs1 ''deal_stage_id'' = get_or_none kvs ''deal_stage_id''"
    and st1: "map_of kvs1 ''deal_stage'' = map_of kvs ''deal_stage''"
    and ow1: "map_of kvs1 ''owner'' =
         (if truthy (get_or_none kvs ''owner_id'') then
            (case map_of m (key_norm (get_or_none kvs ''owner_id'')) of
               Some u \<Rightarrow> Some u | None \<Rightarrow> map_of kvs ''owner'')
          else map_of kvs ''owner'')"
    and h1: "truthy (get_or_none kvs ''owner_id'') \<longrightarrow> hashable (get_or_none kvs ''owner_id'')"
    using a d d1
    by (auto simp: attach_owner_obj get_or_none_update update_conv'
        split: if_splits option.splits)
  have o2: "get_or_none kvs' ''owner_id'' = get_or_none kvs1 ''owner_id''"
    and s2: "get_or_none kvs' ''deal_stage_id'' = get_or_none kvs1 ''deal_stage_id''"
    and ow2: "map_of kvs' ''owner'' = map_of kvs1 ''owner''"
    and st2: "(if truthy (get_or_none kvs1 ''deal_stage_id'') then
           (\<exists>name. get_stage_name (get_or_none kvs1 ''deal_stage_id'') = Inr name
              \<and> map_of kvs' ''deal_stage'' =
                  Some (JObj [(''id'', get_or_none kvs1 ''deal_stage_id''),
                              (''name'', JStr name)]))
         else map_of kvs' ''deal_stage'' = map_of kvs1 ''deal_stage'')"
    using s d1 d'
    by (auto simp: attach_stage_obj get_or_none_update update_conv'
        split: if_splits sum.splits)
  note st3 = st2 [unfolded s1 st1]
  show ?thesis
    using d d' o1 s1 ow1 h1 o2 s2 ow2 st3 by simp
qed

lemma enrich_deals_nth:
  "enrich_deals m ds = Inr ds' \<Longrightarrow>
   length ds' = length ds \<and> (\<forall>i < length ds. enrich_deal m (ds ! i) = Inr (ds' ! i))"
proof (induction ds arbitrary: ds')
  case Nil
  then show ?case by simp
next
  case (Cons d ds)
  from Cons.prems obtain d1 ds1 where
    a: "enrich_deal m d = Inr d1" and b: "enrich_deals m ds = Inr ds1" and c: "ds' = d1 # ds1"
    by (auto split: sum.splits)
  from Cons.IH [OF b] a c show ?case
    by (auto simp: nth_Cons split: nat.splits)
qed

lemma enrich_nth:
  assumes "enrich users deals = Inr deals'" and "i < length deals"
  shows "\<exists>m. build_owner_map users = Inr m \<and> enrich_deal m (deals ! i) = Inr (deals' ! i)"
proof -
  from assms(1) obtain m where m: "build_owner_map users = Inr m"
    and e: "enrich_deals m deals = Inr deals'"
    by (auto simp: enrich_def split: sum.splits)
  from enrich_deals_nth [OF e] assms(2) m show ?thesis by blast
qed

text \<open>The step on the decoded response is the step on the two lists it holds.\<close>

lemma enrich_result_lists:
  assumes "py_get result ''users'' (JList []) = Inr users" and "py_iter users = Inr us"
    and "py_get result ''deals'' (JList []) = Inr deals" and "py_iter deals = Inr ds"
  shows "enrich_result result =
     (case enrich us ds of
        Inl e \<Rightarrow> Inl e
      | Inr ds' \<Rightarrow> Inr (store_deals result deals ds'))"
  using assms by (simp add: enrich_result_def enrich_def split: sum.splits)

section \<open>Enrichment: the claims\<close>

text \<open>
  C2, as the code has it. For every deal of a list that the enrichment step accepts:
  when \<open>deal_stage_id\<close> is truthy (present and neither \<open>None\<close>, \<open>0\<close>, \<open>False\<close>
  nor empty), the deal's \<open>deal_stage\<close> is the dictionary of that identifier and the
  name \<open>_get_stage_name\<close> gives it; when \<open>deal_stage_id\<close> is absent or falsy,
  \<open>deal_stage\<close> is as it was before (absent if it was absent).
\<close>

theorem deal_stage_attached:
  assumes "enrich users deals = Inr deals'" and "i < length deals"
  shows "\<exists>kvs kvs'. deals ! i = JObj kvs \<and> deals' ! i = JObj kvs' \<and>
     (if truthy (get_or_none kvs ''deal_stage_id'') then
        (\<exists>name. get_stage_name (get_or_none kvs ''deal_stage_id'') = Inr name
           \<and> map_of kvs' ''deal_stage'' =
               Some (JObj [(''id'', get_or_none kvs ''deal_stage_id''), (''name'', JStr name)]))
      else map_of kvs' ''deal_stage'' = map_of kvs ''deal_stage'')"
proof -
  from enrich_nth [OF assms] obtain m where
    e: "enrich_deal m (deals ! i) = Inr (deals' ! i)" by blast
  from enrich_deal_fields [OF e] show ?thesis by blast
qed

theorem deal_stage_attached_witness:
  "enrich [] [JObj [(''deal_stage_id'', JInt 402001815652)]] =
     Inr [JObj [(''deal_stage_id'', JInt 402001815652),
                (''deal_stage'',
                 JObj [(''id'', JInt 402001815652), (''name'', JStr ''Closed Won'')])]]
   \<and> (\<exists>kvs kvs'. [JObj [(''deal_stage_id'', JInt 402001815652)]] ! 0 = JObj kvs
        \<and> [JObj [(''deal_stage_id'', JInt 402001815652),
                  (''deal_stage'',
                   JObj [(''id'', JInt 402001815652), (''name'', JStr ''Closed Won'')])]] ! 0
            = JObj kvs'
        \<and> (if truthy (get_or_none kvs ''deal_stage_id'') then
             (\<exists>name. get_stage_name (get_or_none kvs ''deal_stage_id'') = Inr name
                \<and> map_of kvs' ''deal_stage'' =
                    Some (JObj [(''id'', get_or_none kvs ''deal_stage_id''),
                                (''name'', JStr name)]))
           else map_of kvs' ''deal_stage'' = map_of kvs ''deal_stage''))"
proof -
  have e: "enrich [] [JObj [(''deal_stage_id'', JInt 402001815652)]] =
     Inr [JObj [(''deal_stage_id'', JInt 402001815652),
                (''deal_stage'',
                 JObj [(''id'', JInt 402001815652), (''name'', JStr ''Closed Won'')])]]"
    by (simp add: enrich_def build_owner_map_def enrich_deal_def attach_owner_def
        attach_stage_def stage_map_def)
  have l: "0 < length [JObj [(''deal_stage_id'', JInt 402001815652)]]"
    by simp
  from deal_stage_attached [OF e l] e show ?thesis by blast
qed

text \<open>
  A deal whose \<open>deal_stage_id\<close> is \<open>0\<close>, present and not \<open>None\<close>, gets no
  \<open>deal_stage\<close>.
\<close>

theorem deal_stage_zero_counterexample:
  "enrich [] [JObj [(''deal_stage_id'', JInt 0)]] = Inr [JObj [(''deal_stage_id'', JInt 0)]]
   \<and> map_of [(''deal_stage_id'', JInt 0)] ''deal_stage_id'' = Some (JInt 0)
   \<and> map_of [(''deal_stage_id'', JInt 0)] ''deal_stage'' = None"
  by (simp add: enrich_def build_owner_map_def enrich_deal_def attach_owner_def
      attach_stage_def)

text \<open>
  C3, as the code has it. For every deal of a list that the enrichment step accepts:
  when \<open>owner_id\<close> is truthy and some user's \<open>id\<close> equals it, the deal's \<open>owner\<close>
  is the full record of the last such user of the list; when \<open>owner_id\<close> is absent,
  falsy, or no user has it, \<open>owner\<close> is as it was before (absent if it was absent, never
  set to \<open>None\<close>).
\<close>

theorem owner_attached:
  assumes "enrich users deals = Inr deals'" and "i < length deals"
  shows "\<exists>kvs kvs'. deals ! i = JObj kvs \<and> deals' ! i = JObj kvs' \<and>
     map_of kvs' ''owner'' =
       (if truthy (get_or_none kvs ''owner_id'') then
          (case last_user_with_id (get_or_none kvs ''owner_id'') users of
             Some u \<Rightarrow> Some u
           | None \<Rightarrow> map_of kvs ''owner'')
        else map_of kvs ''owner'')"
proof -
  from enrich_nth [OF assms] obtain m where m: "build_owner_map users = Inr m"
    and e: "enrich_deal m (deals ! i) = Inr (deals' ! i)" by blast
  from enrich_deal_fields [OF e] obtain kvs kvs' where
    d: "deals ! i = JObj kvs" "deals' ! i = JObj kvs'"
    and ow: "map_of kvs' ''owner'' =
         (if truthy (get_or_none kvs ''owner_id'') then
            (case map_of m (key_norm (get_or_none kvs ''owner_id'')) of
               Some u \<Rightarrow> Some u | None \<Rightarrow> map_of kvs ''owner'')
          else map_of kvs ''owner'')"
    by blast
  show ?thesis
    using d ow build_owner_map_lookup [OF m, of "get_or_none kvs ''owner_id''"] by simp
qed

text \<open>Two users share the identifier 5; the deal gets the later one.\<close>

theorem owner_attached_witness:
  "enrich [JObj [(''id'', JInt 5), (''name'', JStr ''A'')],
           JObj [(''id'', JInt 5), (''name'', JStr ''B'')]]
          [JObj [(''owner_id'', JInt 5)]] =
     Inr [JObj [(''owner_id'', JInt 5),
                (''owner'', JObj [(''id'', JInt 5), (''name'', JStr ''B'')])]]
   \<and> last_user_with_id (JInt 5)
        [JObj [(''id'', JInt 5), (''name'', JStr ''A'')],
         JObj [(''id'', JInt 5), (''name'', JStr ''B'')]] =
       Some (JObj [(''id'', JInt 5), (''name'', JStr ''B'')])
   \<and> (\<exists>kvs kvs'. [JObj [(''owner_id'', JInt 5)]] ! 0 = JObj kvs
        \<and> [JObj [(''owner_id'', JInt 5),
                  (''owner'', JObj [(''id'', JInt 5), (''name'', JStr ''B'')])]] ! 0 = JObj kvs'
        \<and> map_of kvs' ''owner'' =
            (if truthy (get_or_none kvs ''owner_id'') then
               (case last_user_with_id (get_or_none kvs ''owner_id'')
                       [JObj [(''id'', JInt 5), (''name'', JStr ''A'')],
                        JObj [(''id'', JInt 5), (''name'', JStr ''B'')]] of
                  Some u \<Rightarrow> Some u
                | None \<Rightarrow> map_of kvs ''owner'')
             else map_of kvs ''owner''))"
proof -
  let ?users = "[JObj [(''id'', JInt 5), (''name'', JStr ''A'')],
                 JObj [(''id'', JInt 5), (''name'', JStr ''B'')]]"
  let ?deals = "[JObj [(''owner_id'', JInt 5)]]"
  have e: "enrich ?users ?deals =
     Inr [JObj [(''owner_id'', JInt 5),
                (''owner'', JObj [(''id'', JInt 5), (''name'', JStr ''B'')])]]"
    by (simp add: enrich_def build_owner_map_def enrich_deal_def attach_owner_def
        attach_stage_def)
  have l: "0 < length ?deals"
    by simp
  have u: "last_user_with_id (JInt 5) ?users =
      Some (JObj [(''id'', JInt 5), (''name'', JStr ''B'')])"
    by (simp add: last_user_with_id_def has_id_def)
  from owner_attached [OF e l] e u show ?thesis by blast
qed

text \<open>
  A deal whose \<open>owner_id\<close> is \<open>0\<close> gets no \<open>owner\<close>, although a user has that
  \<open>id\<close>.
\<close>

theorem owner_id_zero_counterexample:
  "enrich [JObj [(''id'', JInt 0), (''name'', JStr ''A'')]] [JObj [(''owner_id'', JInt 0)]] =
     Inr [JObj [(''owner_id'', JInt 0)]]
   \<and> last_user_with_id (JInt 0) [JObj [(''id'', JInt 0), (''name'', JStr ''A'')]] =
       Some (JObj [(''id'', JInt 0), (''name'', JStr ''A'')])
   \<and> map_of [(''owner_id'', JInt 0)] ''owner'' = None"
  by (simp add: enrich_def build_owner_map_def enrich_deal_def attach_owner_def
      attach_stage_def last_user_with_id_def has_id_def)

section \<open>Enrichment: when it completes\<close>

lemma owner_map_from_ok:
  assumes "\<forall>u \<in> set users. \<exists>ukvs k. u = JObj ukvs \<and> map_of ukvs ''id'' = Some k \<and> hashable k"
  shows "\<exists>m'. owner_map_from m users = Inr m'"
  using assms
proof (induction users arbitrary: m)
  case Nil
  then show ?case by simp
next
  case (Cons u users)
  from Cons.prems obtain ukvs k where
    u: "u = JObj ukvs" "map_of ukvs ''id'' = Some k" "hashable k"
    by auto
  from Cons.prems have
    "\<forall>u \<in> set users. \<exists>ukvs k. u = JObj ukvs \<and> map_of ukvs ''id'' = Some k \<and> hashable k"
    by simp
  from Cons.IH [OF this, of "AList.update (key_norm k) u m"] u show ?case by simp
qed

lemma enrich_deal_ok:
  assumes "truthy (get_or_none kvs ''owner_id'') \<longrightarrow> hashable (get_or_none kvs ''owner_id'')"
    and "truthy (get_or_none kvs ''deal_stage_id'') \<longrightarrow>
           hashable (get_or_none kvs ''deal_stage_id'')"
  shows "\<exists>d'. enrich_deal m (JObj kvs) = Inr d'"
proof -
  have "\<exists>kvs1. attach_owner m (JObj kvs) = Inr (JObj kvs1)
      \<and> get_or_none kvs1 ''deal_stage_id'' = get_or_none kvs ''deal_stage_id''"
    using assms(1)
    by (cases "map_of m (key_norm (get_or_none kvs ''owner_id''))")
       (simp_all add: attach_owner_obj get_or_none_update)
  then obtain kvs1 where a: "attach_owner m (JObj kvs) = Inr (JObj kvs1)"
    and s1: "get_or_none kvs1 ''deal_stage_id'' = get_or_none kvs ''deal_stage_id''"
    by blast
  have "\<exists>d'. attach_stage (JObj kvs1) = Inr d'"
  proof (cases "truthy (get_or_none kvs ''deal_stage_id'')")
    case True
    with assms(2) have "hashable (get_or_none kvs ''deal_stage_id'')"
      by simp
    then obtain name where "get_stage_name (get_or_none kvs ''deal_stage_id'') = Inr name"
      by (cases "get_or_none kvs ''deal_stage_id''") auto
    with True s1 show ?thesis
      by (simp add: attach_stage_obj)
  next
    case False
    with s1 show ?thesis
      by (simp add: attach_stage_obj)
  qed
  with a show ?thesis
    by (simp add: enrich_deal_def)
qed

lemma enrich_deal_absent:
  assumes "map_of kvs ''owner_id'' = None" and "map_of kvs ''deal_stage_id'' = None"
  shows "enrich_deal m (JObj kvs) = Inr (JObj kvs)"
  using assms
  by (simp add: enrich_deal_def attach_owner_obj attach_stage_obj get_or_none_def)

lemma enrich_deals_ok:
  assumes "\<forall>d \<in> set deals. \<exists>kvs. d = JObj kvs
        \<and> (truthy (get_or_none kvs ''owner_id'') \<longrightarrow> hashable (get_or_none kvs ''owner_id''))
        \<and> (truthy (get_or_none kvs ''deal_stage_id'') \<longrightarrow>
             hashable (get_or_none kvs ''deal_stage_id''))"
  shows "\<exists>deals'. enrich_deals m deals = Inr deals'"
  using assms
proof (induction deals)
  case Nil
  then show ?case by simp
next
  case (Cons d deals)
  from Cons.prems obtain kvs where "d = JObj kvs"
    "truthy (get_or_none kvs ''owner_id'') \<longrightarrow> hashable (get_or_none kvs ''owner_id'')"
    "truthy (get_or_none kvs ''deal_stage_id'') \<longrightarrow> hashable (get_or_none kvs ''deal_stage_id'')"
    by auto
  then obtain d' where d': "enrich_deal m d = Inr d'"
    using enrich_deal_ok by blast
  from Cons obtain deals' where "enrich_deals m deals = Inr deals'"
    by auto
  with d' show ?case by simp
qed

lemma enrich_deals_absent:
  assumes "\<forall>d \<in> set deals. \<exists>kvs. d = JObj kvs
        \<and> map_of kvs ''owner_id'' = None \<and> map_of kvs ''deal_stage_id'' = None"
  shows "enrich_deals m deals = Inr deals"
  using assms
proof (induction deals)
  case Nil
  then show ?case by simp
next
  case (Cons d deals)
  then show ?case by (auto simp: enrich_deal_absent)
qed

text \<open>
  C5, as the code has it. \<open>owner_id\<close> and \<open>deal_stage_id\<close> are read with
  \<open>.get\<close>: when every user is a dictionary with a hashable \<open>id\<close>, and every deal is
  a dictionary whose two identifiers are absent, falsy or hashable, the enrichment step
  completes without raising; and deals in which both identifiers are absent come back
  unchanged. The user's \<open>id\<close> is read with \<open>user["id"]\<close>, so the users must have one.
\<close>

theorem absent_deal_fields_never_raise:
  assumes "\<forall>u \<in> set users. \<exists>ukvs k. u = JObj ukvs \<and> map_of ukvs ''id'' = Some k \<and> hashable k"
    and "\<forall>d \<in> set deals. \<exists>kvs. d = JObj kvs
        \<and> (truthy (get_or_none kvs ''owner_id'') \<longrightarrow> hashable (get_or_none kvs ''owner_id''))
        \<and> (truthy (get_or_none kvs ''deal_stage_id'') \<longrightarrow>
             hashable (get_or_none kvs ''deal_stage_id''))"
  shows "(\<exists>deals'. enrich users deals = Inr deals')
     \<and> ((\<forall>d \<in> set deals. \<exists>kvs. d = JObj kvs
            \<and> map_of kvs ''owner_id'' = None \<and> map_of kvs ''deal_stage_id'' = None) \<longrightarrow>
        enrich users deals = Inr deals)"
proof -
  from owner_map_from_ok [OF assms(1), of "[]"] obtain m where
    m: "build_owner_map users = Inr m"
    by (auto simp: build_owner_map_def)
  from enrich_deals_ok [OF assms(2), of m] m have "\<exists>deals'. enrich users deals = Inr deals'"
    by (simp add: enrich_def)
  moreover have "enrich users deals = Inr deals"
    if "\<forall>d \<in> set deals. \<exists>kvs. d = JObj kvs
          \<and> map_of kvs ''owner_id'' = None \<and> map_of kvs ''deal_stage_id'' = None"
    using enrich_deals_absent [OF that, of m] m by (simp add: enrich_def)
  ultimately show ?thesis by blast
qed

theorem absent_deal_fields_never_raise_witness:
  "enrich [JObj [(''id'', JInt 5)]] [JObj [(''name'', JStr ''deal'')]] =
     Inr [JObj [(''name'', JStr ''deal'')]]"
proof -
  have u: "\<forall>u \<in> set [JObj [(''id'', JInt 5)]].
      \<exists>ukvs k. u = JObj ukvs \<and> map_of ukvs ''id'' = Some k \<and> hashable k"
    by simp
  have d: "\<forall>d \<in> set [JObj [(''name'', JStr ''deal'')]]. \<exists>kvs. d = JObj kvs
      \<and> (truthy (get_or_none kvs ''owner_id'') \<longrightarrow> hashable (get_or_none kvs ''owner_id''))
      \<and> (truthy (get_or_none kvs ''deal_stage_id'') \<longrightarrow>
           hashable (get_or_none kvs ''deal_stage_id''))"
    by (simp add: get_or_none_def)
  have a: "\<forall>d \<in> set [JObj [(''name'', JStr ''deal'')]]. \<exists>kvs. d = JObj kvs
      \<and> map_of kvs ''owner_id'' = None \<and> map_of kvs ''deal_stage_id'' = None"
    by simp
  from absent_deal_fields_never_raise [OF u d] a show ?thesis by blast
qed

text \<open>
  A user record without \<open>id\<close>: building the owner lookup raises \<open>KeyError\<close>, on the
  two lists and on the decoded response.
\<close>

theorem user_without_id_counterexample:
  "enrich [JObj [(''name'', JStr ''A'')]] [] = Inl (KeyError ''id'')
   \<and> enrich_result
       (JObj [(''users'', JList [JObj [(''name'', JStr ''A'')]]), (''deals'', JList [])])
       = Inl (KeyError ''id'')"
  by (simp add: enrich_def enrich_result_def build_owner_map_def)

section \<open>Enrichment: a second pass changes nothing\<close>

lemma enrich_deal_idem:
  assumes "enrich_deal m d = Inr d'"
  shows "enrich_deal m d' = Inr d'"
proof -
  from enrich_deal_fields [OF assms] obtain kvs kvs' where
    d: "d = JObj kvs" and d': "d' = JObj kvs'"
    and oid: "get_or_none kvs' ''owner_id'' = get_or_none kvs ''owner_id''"
    and sid: "get_or_none kvs' ''deal_stage_id'' = get_or_none kvs ''deal_stage_id''"
    and ow: "map_of kvs' ''owner'' =
         (if truthy (get_or_none kvs ''owner_id'') then
            (case map_of m (key_norm (get_or_none kvs ''owner_id'')) of
               Some u \<Rightarrow> Some u | None \<Rightarrow> map_of kvs ''owner'')
          else map_of kvs ''owner'')"
    and h: "truthy (get_or_none kvs ''owner_id'') \<longrightarrow> hashable (get_or_none kvs ''owner_id'')"
    and st: "(if truthy (get_or_none kvs ''deal_stage_id'') then
           (\<exists>name. get_stage_name (get_or_none kvs ''deal_stage_id'') = Inr name
              \<and> map_of kvs' ''deal_stage'' =
                  Some (JObj [(''id'', get_or_none kvs ''deal_stage_id''), (''name'', JStr name)]))
         else map_of kvs' ''deal_stage'' = map_of kvs ''deal_stage'')"
    by blast
  have a: "attach_owner m (JObj kvs') = Inr (JObj kvs')"
    using oid ow h by (auto simp: attach_owner_obj update_triv split: option.splits)
  have b: "attach_stage (JObj kvs') = Inr (JObj kvs')"
    using sid st by (auto simp: attach_stage_obj update_triv split: if_splits)
  show ?thesis
    using a b d' by (simp add: enrich_deal_def)
qed

lemma enrich_deals_idem:
  "enrich_deals m ds = Inr ds' \<Longrightarrow> enrich_deals m ds' = Inr ds'"
proof (induction ds arbitrary: ds')
  case Nil
  then show ?case by simp
next
  case (Cons d ds)
  from Cons.prems obtain d1 ds1 where
    a: "enrich_deal m d = Inr d1" and b: "enrich_deals m ds = Inr ds1" and c: "ds' = d1 # ds1"
    by (auto split: sum.splits)
  show ?case
    using enrich_deal_idem [OF a] Cons.IH [OF b] c by simp
qed

lemma enrich_idem:
  assumes "enrich users deals = Inr deals'"
  shows "enrich users deals' = Inr deals'"
proof -
  from assms obtain m where m: "build_owner_map users = Inr m"
    and e: "enrich_deals m deals = Inr deals'"
    by (auto simp: enrich_def split: sum.splits)
  show ?thesis
    using m enrich_deals_idem [OF e] by (simp add: enrich_def)
qed

lemma enrich_result_idem:
  assumes "enrich_result result = Inr result'"
  shows "enrich_result result' = Inr result'"
proof -
  from assms obtain kvs where r: "result = JObj kvs"
    by (cases result) (simp_all add: enrich_result_def)
  define users where "users = (case map_of kvs ''users'' of Some v \<Rightarrow> v | None \<Rightarrow> JList [])"
  define deals where "deals = (case map_of kvs ''deals'' of Some v \<Rightarrow> v | None \<Rightarrow> JList [])"
  from assms r obtain us m ds ds' where
    us: "py_iter users = Inr us" and m: "build_owner_map us = Inr m"
    and ds: "py_iter deals = Inr ds" and e: "enrich_deals m ds = Inr ds'"
    and r': "result' = store_deals result deals ds'"
    by (auto simp: enrich_result_def users_def deals_def split: sum.splits)
  show ?thesis
  proof (cases "\<exists>old. deals = JList old \<and> map_of kvs ''deals'' \<noteq> None")
    case True
    then obtain old where o: "deals = JList old" and p: "map_of kvs ''deals'' \<noteq> None"
      by blast
    from o ds have "ds = old" by simp
    have r2: "result' = JObj (AList.update ''deals'' (JList ds') kvs)"
      using r' r o p by simp
    have u2: "(case map_of (AList.update ''deals'' (JList ds') kvs) ''users'' of
                 Some v \<Rightarrow> v | None \<Rightarrow> JList []) = users"
      by (simp add: users_def update_conv')
    have d2: "(case map_of (AList.update ''deals'' (JList ds') kvs) ''deals'' of
                 Some v \<Rightarrow> v | None \<Rightarrow> JList []) = JList ds'"
      by (simp add: update_conv')
    show ?thesis
      using r2 u2 d2 us m enrich_deals_idem [OF e]
      by (simp add: enrich_result_def update_conv')
  next
    case False
    have "result' = result"
    proof (cases deals)
      case (JList old)
      with False have "map_of kvs ''deals'' = None" by simp
      with r' r JList show ?thesis by simp
    qed (use r' r in simp_all)
    with assms show ?thesis by simp
  qed
qed

text \<open>
  C10. Running the enrichment step on its own output, with the same users, gives that
  output again; and a step that raises gives no list to run on, so two passes in a row
  are one pass for every input. The same holds on the decoded response.
\<close>

theorem enrich_idempotent:
  "(case enrich users deals of Inl e \<Rightarrow> Inl e | Inr deals' \<Rightarrow> enrich users deals') =
     enrich users deals
   \<and> (case enrich_result result of Inl e \<Rightarrow> Inl e | Inr result' \<Rightarrow> enrich_result result') =
     enrich_result result"
proof -
  have "(case enrich users deals of Inl e \<Rightarrow> Inl e | Inr deals' \<Rightarrow> enrich users deals') =
     enrich users deals"
    by (cases "enrich users deals") (simp_all add: enrich_idem)
  moreover have
    "(case enrich_result result of Inl e \<Rightarrow> Inl e | Inr result' \<Rightarrow> enrich_result result') =
     enrich_result result"
    by (cases "enrich_result result") (simp_all add: enrich_result_idem)
  ultimately show ?thesis by blast
qed

theorem enrich_idempotent_witness:
  "enrich [JObj [(''id'', JInt 5), (''name'', JStr ''A'')]]
     [JObj [(''owner_id'', JInt 5), (''deal_stage_id'', JInt 999)]] =
   Inr [JObj [(''owner_id'', JInt 5), (''deal_stage_id'', JInt 999),
              (''owner'', JObj [(''id'', JInt 5), (''name'', JStr ''A'')]),
              (''deal_stage'', JObj [(''id'', JInt 999), (''name'', JStr ''Stage 999'')])]]
   \<and> enrich [JObj [(''id'', JInt 5), (''name'', JStr ''A'')]]
     [JObj [(''owner_id'', JInt 5), (''deal_stage_id'', JInt 999),
              (''owner'', JObj [(''id'', JInt 5), (''name'', JStr ''A'')]),
              (''deal_stage'', JObj [(''id'', JInt 999), (''name'', JStr ''Stage 999'')])]] =
   Inr [JObj [(''owner_id'', JInt 5), (''deal_stage_id'', JInt 999),
              (''owner'', JObj [(''id'', JInt 5), (''name'', JStr ''A'')]),
              (''deal_stage'', JObj [(''id'', JInt 999), (''name'', JStr ''Stage 999'')])]]"
proof -
  have e: "enrich [JObj [(''id'', JInt 5), (''name'', JStr ''A'')]]
     [JObj [(''owner_id'', JInt 5), (''deal_stage_id'', JInt 999)]] =
   Inr [JObj [(''owner_id'', JInt 5), (''deal_stage_id'', JInt 999),
              (''owner'', JObj [(''id'', JInt 5), (''name'', JStr ''A'')]),
              (''deal_stage'', JObj [(''id'', JInt 999), (''name'', JStr ''Stage 999'')])]]"
    by (simp add: enrich_def build_owner_map_def enrich_deal_def attach_owner_def
        attach_stage_def stage_map_def py_str_int_999)
  from enrich_idempotent [of "[JObj [(''id'', JInt 5), (''name'', JStr ''A'')]]"
      "[JObj [(''owner_id'', JInt 5), (''deal_stage_id'', JInt 999)]]"] e
  show ?thesis by simp
qed

section \<open>The loop, one pass at a time\<close>

lemma loop_exit:
  "\<not> page \<le> max_pages \<Longrightarrow>
   paginated_loop key get_page max_pages page all_items requested = (requested, Inr all_items)"
  by (subst paginated_loop.simps) simp

lemma loop_raise:
  "page \<le> max_pages \<Longrightarrow> loop_body key (get_page page) page all_items = Raise e \<Longrightarrow>
   paginated_loop key get_page max_pages page all_items requested = (requested @ [page], Inl e)"
  by (subst paginated_loop.simps) simp

lemma loop_break:
  "page \<le> max_pages \<Longrightarrow> loop_body key (get_page page) page all_items = Break items \<Longrightarrow>
   paginated_loop key get_page max_pages page all_items requested =
     (requested @ [page], Inr items)"
  by (subst paginated_loop.simps) simp

lemma loop_continue:
  "page \<le> max_pages \<Longrightarrow> loop_body key (get_page page) page all_items = Continue items \<Longrightarrow>
   paginated_loop key get_page max_pages page all_items requested =
     paginated_loop key get_page max_pages (page + 1) items (requested @ [page])"
  by (subst paginated_loop.simps) simp

lemma loop_body_failed_fetch: "loop_body key (Inl e) page all_items = Raise e"
  by (simp add: loop_body_def)



lemma loop_body_items:
  "loop_body key fetched page all_items = Break items \<or>
   loop_body key fetched page all_items = Continue items \<Longrightarrow>
   items = all_items @ page_items key fetched"
  by (auto simp: loop_body_def page_items_def split: sum.splits if_splits)

section \<open>The loop, a whole run\<close>

lemma upto_page_Cons:
  assumes "ps = [page + 1..page + 1 + int (length ps) - 1]"
  shows "page # ps = [page..page + int (length (page # ps)) - 1]"
proof -
  have "[page..page + int (length (page # ps)) - 1] = page # [page + 1..page + int (length ps)]"
    by (subst upto_rec1) simp_all
  also have "[page + 1..page + int (length ps)] = ps"
    using assms by (simp add: add.commute add.left_commute)
  finally show ?thesis by simp
qed

text \<open>
  A run that returns a list has requested consecutive pages from the current one on, and
  the list is what was collected before, followed by the items of those pages in the
  order of the requests.
\<close>

lemma run_collects:
  "paginated_loop key get_page max_pages page all_items requested = (requested', Inr items) \<Longrightarrow>
   \<exists>ps. requested' = requested @ ps
      \<and> ps = [page..page + int (length ps) - 1]
      \<and> items = all_items @ concat (map (\<lambda>p. page_items key (get_page p)) ps)"
proof (induction key get_page max_pages page all_items requested rule: paginated_loop.induct)
  case (1 key get_page max_pages page all_items requested)
  show ?case
  proof (cases "page \<le> max_pages")
    case False
    with "1.prems" have "requested' = requested" "items = all_items"
      by (simp_all add: loop_exit)
    then show ?thesis by simp
  next
    case True
    show ?thesis
    proof (cases "loop_body key (get_page page) page all_items")
      case (Raise e)
      with True "1.prems" show ?thesis
        by (simp add: loop_raise)
    next
      case (Break xs)
      with True "1.prems" have r: "requested' = requested @ [page]" and x: "items = xs"
        by (simp_all add: loop_break)
      from Break have "xs = all_items @ page_items key (get_page page)"
        using loop_body_items by blast
      with r x show ?thesis by simp
    next
      case (Continue xs)
      with True "1.prems" have
        "paginated_loop key get_page max_pages (page + 1) xs (requested @ [page]) =
           (requested', Inr items)"
        by (simp add: loop_continue)
      from "1.IH" [OF True Continue this] obtain ps where
        r: "requested' = (requested @ [page]) @ ps"
        and s: "ps = [page + 1..page + 1 + int (length ps) - 1]"
        and i: "items = xs @ concat (map (\<lambda>p. page_items key (get_page p)) ps)"
        by blast
      from Continue have x: "xs = all_items @ page_items key (get_page page)"
        using loop_body_items by blast
      have "requested' = requested @ (page # ps)"
        using r by simp
      moreover have "page # ps = [page..page + int (length (page # ps)) - 1]"
        using s by (rule upto_page_Cons)
      moreover have
        "items = all_items @ concat (map (\<lambda>p. page_items key (get_page p)) (page # ps))"
        using i x by simp
      ultimately show ?thesis by blast
    qed
  qed
qed

text \<open>
  In every run, a requested page whose fetch failed is the last page requested, and its
  exception is what the run returns.
\<close>

lemma run_failed_fetch:
  "paginated_loop key get_page max_pages page all_items requested = (requested', res) \<Longrightarrow>
   \<exists>ps. requested' = requested @ ps
      \<and> ps = [page..page + int (length ps) - 1]
      \<and> (\<forall>p \<in> set ps. \<forall>e. get_page p = Inl e \<longrightarrow> res = Inl e \<and> last ps = p)"
proof (induction key get_page max_pages page all_items requested rule: paginated_loop.induct)
  case (1 key get_page max_pages page all_items requested)
  show ?case
  proof (cases "page \<le> max_pages")
    case False
    with "1.prems" have "requested' = requested"
      by (simp add: loop_exit)
    then show ?thesis by simp
  next
    case True
    show ?thesis
    proof (cases "loop_body key (get_page page) page all_items")
      case (Raise e)
      with True "1.prems" have r: "requested' = requested @ [page]" and x: "res = Inl e"
        by (simp_all add: loop_raise)
      have "\<forall>e'. get_page page = Inl e' \<longrightarrow> e' = e"
        using Raise by (auto simp: loop_body_failed_fetch)
      with r x show ?thesis by simp
    next
      case (Break xs)
      with True "1.prems" have r: "requested' = requested @ [page]"
        by (simp_all add: loop_break)
      have "\<forall>e'. get_page page \<noteq> Inl e'"
        using Break by (auto simp: loop_body_failed_fetch)
      with r show ?thesis by simp
    next
      case (Continue xs)
      with True "1.prems" have
        "paginated_loop key get_page max_pages (page + 1) xs (requested @ [page]) =
           (requested', res)"
        by (simp add: loop_continue)
      from "1.IH" [OF True Continue this] obtain ps where
        r: "requested' = (requested @ [page]) @ ps"
        and s: "ps = [page + 1..page + 1 + int (length ps) - 1]"
        and f: "\<forall>p \<in> set ps. \<forall>e. get_page p = Inl e \<longrightarrow> res = Inl e \<and> last ps = p"
        by blast
      have n: "\<forall>e'. get_page page \<noteq> Inl e'"
        using Continue by (auto simp: loop_body_failed_fetch)
      have "requested' = requested @ (page # ps)"
        using r by simp
      moreover have "page # ps = [page..page + int (length (page # ps)) - 1]"
        using s by (rule upto_page_Cons)
      moreover have "\<forall>p \<in> set (page # ps). \<forall>e. get_page p = Inl e \<longrightarrow>
          res = Inl e \<and> last (page # ps) = p"
        using f n by auto
      ultimately show ?thesis by blast
    qed
  qed
qed

text \<open>Over well-formed pages the loop never raises: it returns a list.\<close>

lemma well_formed_page_no_raise:
  "well_formed_page key fetched \<Longrightarrow> loop_body key fetched page all_items \<noteq> Raise e"
  by (auto simp: well_formed_page_def loop_body_def split: sum.splits json.splits)

lemma run_returns:
  "\<forall>p. page \<le> p \<and> p \<le> max_pages \<longrightarrow> well_formed_page key (get_page p) \<Longrightarrow>
   \<exists>requested' items. paginated_loop key get_page max_pages page all_items requested =
     (requested', Inr items)"
proof (induction key get_page max_pages page all_items requested rule: paginated_loop.induct)
  case (1 key get_page max_pages page all_items requested)
  show ?case
  proof (cases "page \<le> max_pages")
    case False
    then show ?thesis
      by (simp add: loop_exit)
  next
    case True
    with "1.prems" have w: "well_formed_page key (get_page page)"
      by simp
    show ?thesis
    proof (cases "loop_body key (get_page page) page all_items")
      case (Raise e)
      with w show ?thesis
        using well_formed_page_no_raise by blast
    next
      case (Break xs)
      with True show ?thesis
        by (simp add: loop_break)
    next
      case (Continue xs)
      have "\<forall>p. page + 1 \<le> p \<and> p \<le> max_pages \<longrightarrow> well_formed_page key (get_page p)"
        using "1.prems" by simp
      from "1.IH" [OF True Continue this] True Continue show ?thesis
        by (simp add: loop_continue)
    qed
  qed
qed

lemma announces_more_continue:
  "announces_more key fetched page \<Longrightarrow>
   loop_body key fetched page all_items = Continue (all_items @ page_items key fetched)"
  by (auto simp: announces_more_def loop_body_def page_items_def split: sum.splits json.splits)

lemma nonpositive_total_no_continue:
  "1 \<le> page \<Longrightarrow> py_get result ''meta'' (JObj []) = Inr meta \<Longrightarrow>
   py_get meta ''total_pages'' (JInt 1) = Inr (JInt n) \<Longrightarrow> n \<le> 0 \<Longrightarrow>
   loop_body key (Inr result) page all_items \<noteq> Continue xs"
  by (auto simp: loop_body_def split: sum.splits)

text \<open>
  While every page up to \<open>max_pages\<close> announces more, the loop requests all of them,
  then ends at the limit with everything it collected.
\<close>

lemma run_to_limit:
  "\<forall>p. page \<le> p \<and> p \<le> max_pages \<longrightarrow> announces_more key (get_page p) p \<Longrightarrow>
   paginated_loop key get_page max_pages page all_items requested =
     (requested @ [page..max_pages],
      Inr (all_items @ concat (map (\<lambda>p. page_items key (get_page p)) [page..max_pages])))"
proof (induction key get_page max_pages page all_items requested rule: paginated_loop.induct)
  case (1 key get_page max_pages page all_items requested)
  show ?case
  proof (cases "page \<le> max_pages")
    case False
    then show ?thesis by (simp add: loop_exit)
  next
    case True
    with "1.prems" have "announces_more key (get_page page) page" by simp
    then have c: "loop_body key (get_page page) page all_items =
        Continue (all_items @ page_items key (get_page page))"
      by (rule announces_more_continue)
    have r: "\<forall>p. page + 1 \<le> p \<and> p \<le> max_pages \<longrightarrow> announces_more key (get_page p) p"
      using "1.prems" by simp
    have u: "[page..max_pages] = page # [page + 1..max_pages]"
      using True by (rule upto_rec1)
    show ?thesis
      using "1.IH" [OF True c r] True c u by (simp add: loop_continue)
  qed
qed

text \<open>
  In every run from page 1 or later, a requested page that reports a \<open>total_pages\<close>
  of 0 or less is the last page requested; if it is well formed, the run returns a
  list.
\<close>

lemma run_nonpositive_total:
  "paginated_loop key get_page max_pages page all_items requested = (requested', res) \<Longrightarrow>
   1 \<le> page \<Longrightarrow>
   \<exists>ps. requested' = requested @ ps
      \<and> (\<forall>p \<in> set ps. \<forall>result meta n.
            get_page p = Inr result \<and> py_get result ''meta'' (JObj []) = Inr meta
            \<and> py_get meta ''total_pages'' (JInt 1) = Inr (JInt n) \<and> n \<le> 0 \<longrightarrow>
            last ps = p \<and> (well_formed_page key (Inr result) \<longrightarrow> (\<exists>items. res = Inr items)))"
proof (induction key get_page max_pages page all_items requested rule: paginated_loop.induct)
  case (1 key get_page max_pages page all_items requested)
  show ?case
  proof (cases "page \<le> max_pages")
    case False
    with "1.prems" have "requested' = requested"
      by (simp add: loop_exit)
    then show ?thesis by simp
  next
    case True
    show ?thesis
    proof (cases "loop_body key (get_page page) page all_items")
      case (Raise e)
      with True "1.prems" have r: "requested' = requested @ [page]"
        by (simp_all add: loop_raise)
      have "\<not> well_formed_page key (get_page page)"
        using Raise well_formed_page_no_raise by blast
      with r show ?thesis by auto
    next
      case (Break xs)
      with True "1.prems" have r: "requested' = requested @ [page]" "res = Inr xs"
        by (simp_all add: loop_break)
      then show ?thesis by simp
    next
      case (Continue xs)
      with True "1.prems" have
        "paginated_loop key get_page max_pages (page + 1) xs (requested @ [page]) =
           (requested', res)"
        by (simp add: loop_continue)
      moreover have "1 \<le> page + 1" using "1.prems" by simp
      ultimately obtain ps where
        r: "requested' = (requested @ [page]) @ ps"
        and f: "\<forall>p \<in> set ps. \<forall>result meta n.
            get_page p = Inr result \<and> py_get result ''meta'' (JObj []) = Inr meta
            \<and> py_get meta ''total_pages'' (JInt 1) = Inr (JInt n) \<and> n \<le> 0 \<longrightarrow>
            last ps = p \<and> (well_formed_page key (Inr result) \<longrightarrow> (\<exists>items. res = Inr items))"
        using "1.IH" [OF True Continue] by blast
      have n: "\<not> (get_page page = Inr result \<and> py_get result ''meta'' (JObj []) = Inr meta
            \<and> py_get meta ''total_pages'' (JInt 1) = Inr (JInt n) \<and> n \<le> 0)" for result meta n
        using Continue "1.prems"(2) nonpositive_total_no_continue by metis
      have "requested' = requested @ (page # ps)"
        using r by simp
      moreover have "\<forall>p \<in> set (page # ps). \<forall>result meta n.
            get_page p = Inr result \<and> py_get result ''meta'' (JObj []) = Inr meta
            \<and> py_get meta ''total_pages'' (JInt 1) = Inr (JInt n) \<and> n \<le> 0 \<longrightarrow>
            last (page # ps) = p
            \<and> (well_formed_page key (Inr result) \<longrightarrow> (\<exists>items. res = Inr items))"
        using f n by auto
      ultimately show ?thesis by blast
    qed
  qed
qed


section \<open>Runs against the example servers\<close>

lemmas run_simps =
  get_all_contacts_paginated_def get_all_deals_paginated_def get_all_contacts_def
  get_all_deals_def make_request_def paginated_loop.simps loop_body_def enrich_result_def
  build_owner_map_def enrich_deal_def attach_owner_def attach_stage_def example_page_def
  item_def

lemma three_contacts:
  "get_all_contacts_paginated three_pages example_service 100 =
     ([1, 2, 3], Inr [item 1, item 2, item 2, item 3, item 3])"
  by (simp add: run_simps three_pages_def)

lemma three_deals:
  "get_all_deals_paginated three_pages example_service 100 =
     ([1, 2, 3], Inr [item 1, item 2, item 2, item 3, item 3])"
  by (simp add: run_simps three_pages_def)

lemma failing_contacts:
  "get_all_contacts_paginated failing_second_page example_service 100 =
     ([1, 2], Inl (HTTPStatusError 500))"
  by (simp add: run_simps failing_second_page_def)

lemma failing_deals:
  "get_all_deals_paginated failing_second_page example_service 100 =
     ([1, 2], Inl (HTTPStatusError 500))"
  by (simp add: run_simps failing_second_page_def)

lemma page_limit_contacts:
  "get_all_contacts_paginated three_pages example_service 2 =
     ([1, 2], Inr [item 1, item 2, item 2, item 3])"
  by (simp add: run_simps three_pages_def)

lemma zero_total_contacts:
  "get_all_contacts_paginated page_with_zero_total example_service 100 = ([1], Inr [item 1])"
  by (simp add: run_simps page_with_zero_total_def)

lemma zero_total_deals:
  "get_all_deals_paginated page_with_zero_total example_service 100 = ([1], Inr [item 1])"
  by (simp add: run_simps page_with_zero_total_def)

lemma page_limit_deals:
  "get_all_deals_paginated three_pages example_service 2 =
     ([1, 2], Inr [item 1, item 2, item 2, item 3])"
  by (simp add: run_simps three_pages_def)

lemma three_pages_announce_more_contacts:
  "\<forall>q. 1 \<le> q \<and> q \<le> 2 \<longrightarrow>
     announces_more ''contacts'' (get_all_contacts three_pages example_service q 100 None) q"
  by (auto simp: announces_more_def get_all_contacts_def make_request_def three_pages_def
      example_page_def Let_def)

lemma three_pages_announce_more_deals:
  "\<forall>q. 1 \<le> q \<and> q \<le> 2 \<longrightarrow>
     announces_more ''deals'' (get_all_deals three_pages example_service q 100 None ''owner'') q"
  by (auto simp: announces_more_def get_all_deals_def make_request_def three_pages_def
      example_page_def Let_def enrich_result_def build_owner_map_def enrich_deal_def
      attach_owner_def attach_stage_def item_def)

lemma three_pages_well_formed_contacts:
  "\<forall>p. 1 \<le> p \<and> p \<le> 100 \<longrightarrow>
     well_formed_page ''contacts'' (get_all_contacts three_pages example_service p 100 None)"
  by (simp add: well_formed_page_def get_all_contacts_def make_request_def three_pages_def
      example_page_def Let_def)

lemma three_pages_well_formed_deals:
  "\<forall>p. 1 \<le> p \<and> p \<le> 100 \<longrightarrow>
     well_formed_page ''deals'' (get_all_deals three_pages example_service p 100 None ''owner'')"
  by (simp add: well_formed_page_def get_all_deals_def make_request_def three_pages_def
      example_page_def Let_def enrich_result_def build_owner_map_def enrich_deal_def
      attach_owner_def attach_stage_def item_def)

section \<open>Paginated collection: the claims\<close>

text \<open>
  C1. Whenever \<open>get_all_contacts_paginated\<close> or \<open>get_all_deals_paginated\<close> returns a
  list, the pages it requested are 1, 2, ..., in that order, and the list is exactly the
  concatenation of the items of those pages in the order of the requests, each page's own
  order kept; nothing is removed, so an item that two pages carry appears twice. (For
  deals, the items of a page are the deals as \<open>get_all_deals\<close> returns them.) And the
  collector does return a list when every page up to \<open>max_pages\<close> is well formed.
\<close>

theorem collected_in_fetch_order:
  "(get_all_contacts_paginated http self max_pages = (requested, Inr items) \<longrightarrow>
      requested = [1..int (length requested)]
      \<and> items =
          concat (map (\<lambda>p. page_items ''contacts'' (get_all_contacts http self p 100 None))
                    requested))
   \<and> (get_all_deals_paginated http self max_pages = (requested', Inr items') \<longrightarrow>
      requested' = [1..int (length requested')]
      \<and> items' =
          concat (map (\<lambda>p. page_items ''deals'' (get_all_deals http self p 100 None ''owner''))
                    requested'))
   \<and> ((\<forall>p. 1 \<le> p \<and> p \<le> max_pages \<longrightarrow>
          well_formed_page ''contacts'' (get_all_contacts http self p 100 None)) \<longrightarrow>
      (\<exists>rs xs. get_all_contacts_paginated http self max_pages = (rs, Inr xs)))
   \<and> ((\<forall>p. 1 \<le> p \<and> p \<le> max_pages \<longrightarrow>
          well_formed_page ''deals'' (get_all_deals http self p 100 None ''owner'')) \<longrightarrow>
      (\<exists>rs xs. get_all_deals_paginated http self max_pages = (rs, Inr xs)))"
proof -
  have "requested = [1..int (length requested)]
      \<and> items =
          concat (map (\<lambda>p. page_items ''contacts'' (get_all_contacts http self p 100 None))
                    requested)"
    if "get_all_contacts_paginated http self max_pages = (requested, Inr items)"
    using run_collects [OF that [unfolded get_all_contacts_paginated_def]] by auto
  moreover have "requested' = [1..int (length requested')]
      \<and> items' =
          concat (map (\<lambda>p. page_items ''deals'' (get_all_deals http self p 100 None ''owner''))
                    requested')"
    if "get_all_deals_paginated http self max_pages = (requested', Inr items')"
    using run_collects [OF that [unfolded get_all_deals_paginated_def]] by auto
  moreover have "\<exists>rs xs. get_all_contacts_paginated http self max_pages = (rs, Inr xs)"
    if "\<forall>p. 1 \<le> p \<and> p \<le> max_pages \<longrightarrow>
          well_formed_page ''contacts'' (get_all_contacts http self p 100 None)"
    unfolding get_all_contacts_paginated_def using that by (rule run_returns)
  moreover have "\<exists>rs xs. get_all_deals_paginated http self max_pages = (rs, Inr xs)"
    if "\<forall>p. 1 \<le> p \<and> p \<le> max_pages \<longrightarrow>
          well_formed_page ''deals'' (get_all_deals http self p 100 None ''owner'')"
    unfolding get_all_deals_paginated_def using that by (rule run_returns)
  ultimately show ?thesis by blast
qed

text \<open>Three overlapping well-formed pages: items 2 and 3 are collected twice.\<close>

theorem collected_in_fetch_order_witness:
  "get_all_contacts_paginated three_pages example_service 100 =
     ([1, 2, 3], Inr [item 1, item 2, item 2, item 3, item 3])
   \<and> get_all_deals_paginated three_pages example_service 100 =
     ([1, 2, 3], Inr [item 1, item 2, item 2, item 3, item 3])
   \<and> [item 1, item 2, item 2, item 3, item 3] =
       concat (map (\<lambda>p. page_items ''contacts''
                           (get_all_contacts three_pages example_service p 100 None))
                 [1, 2, 3])
   \<and> [item 1, item 2, item 2, item 3, item 3] =
       concat (map (\<lambda>p. page_items ''deals''
                           (get_all_deals three_pages example_service p 100 None ''owner''))
                 [1, 2, 3])
   \<and> (\<exists>rs xs. get_all_contacts_paginated three_pages example_service 100 = (rs, Inr xs))
   \<and> (\<exists>rs xs. get_all_deals_paginated three_pages example_service 100 = (rs, Inr xs))"
  using collected_in_fetch_order [of three_pages example_service 100 "[1, 2, 3]"
      "[item 1, item 2, item 2, item 3, item 3]" "[1, 2, 3]"
      "[item 1, item 2, item 2, item 3, item 3]"]
    three_contacts three_deals three_pages_well_formed_contacts three_pages_well_formed_deals
  by blast



text \<open>
  C9. When the request for a page that the collector asked for fails (\<open>_make_request\<close>
  raises: a transport error, a status that is not 2xx, a body that is not JSON), the
  collector returns that very exception, and no list; the failed page is the last one it
  requested, and no page was requested twice.
\<close>

theorem fetch_failure_propagates:
  "(get_all_contacts_paginated http self max_pages = (requested, res)
      \<and> p \<in> set requested \<and> get_all_contacts http self p 100 None = Inl e \<longrightarrow>
      res = Inl e \<and> last requested = p \<and> distinct requested)
   \<and> (get_all_deals_paginated http self max_pages = (requested', res')
      \<and> p' \<in> set requested'
      \<and> make_request http self (''deals/view/'' @ deals_view_id self)
           [(''page'', JInt p'), (''per_page'', JInt 100), (''sort'', JStr ''amount''),
            (''include'', JStr ''owner'')] = Inl e' \<longrightarrow>
      res' = Inl e' \<and> last requested' = p' \<and> distinct requested')"
proof -
  have "res = Inl e \<and> last requested = p \<and> distinct requested"
    if r: "get_all_contacts_paginated http self max_pages = (requested, res)"
      and p: "p \<in> set requested" and f: "get_all_contacts http self p 100 None = Inl e"
  proof -
    from run_failed_fetch [OF r [unfolded get_all_contacts_paginated_def]]
    obtain ps where "requested = ps" "ps = [1..1 + int (length ps) - 1]"
      "\<forall>p \<in> set ps. \<forall>e. get_all_contacts http self p 100 None = Inl e \<longrightarrow>
         res = Inl e \<and> last ps = p"
      by auto
    then show ?thesis
      using p f by (metis distinct_upto)
  qed
  moreover have "res' = Inl e' \<and> last requested' = p' \<and> distinct requested'"
    if r: "get_all_deals_paginated http self max_pages = (requested', res')"
      and p: "p' \<in> set requested'"
      and f: "make_request http self (''deals/view/'' @ deals_view_id self)
           [(''page'', JInt p'), (''per_page'', JInt 100), (''sort'', JStr ''amount''),
            (''include'', JStr ''owner'')] = Inl e'"
  proof -
    from f have f': "get_all_deals http self p' 100 None ''owner'' = Inl e'"
      by (simp add: get_all_deals_def)
    from run_failed_fetch [OF r [unfolded get_all_deals_paginated_def]]
    obtain ps where "requested' = ps" "ps = [1..1 + int (length ps) - 1]"
      "\<forall>p \<in> set ps. \<forall>e. get_all_deals http self p 100 None ''owner'' = Inl e \<longrightarrow>
         res' = Inl e \<and> last ps = p"
      by auto
    then show ?thesis
      using p f' by (metis distinct_upto)
  qed
  ultimately show ?thesis by blast
qed

text \<open>The second page answers 500 after the first page brought two items.\<close>

theorem fetch_failure_propagates_witness:
  "get_all_contacts_paginated failing_second_page example_service 100 =
     ([1, 2], Inl (HTTPStatusError 500))
   \<and> get_all_deals_paginated failing_second_page example_service 100 =
     ([1, 2], Inl (HTTPStatusError 500))
   \<and> get_all_contacts failing_second_page example_service 2 100 None =
     Inl (HTTPStatusError 500)
   \<and> make_request failing_second_page example_service
        (''deals/view/'' @ deals_view_id example_service)
        [(''page'', JInt 2), (''per_page'', JInt 100), (''sort'', JStr ''amount''),
         (''include'', JStr ''owner'')] = Inl (HTTPStatusError 500)
   \<and> (2::int) \<in> set [1, 2] \<and> last [1, 2 :: int] = 2 \<and> distinct [1, 2 :: int]"
proof -
  have c: "get_all_contacts failing_second_page example_service 2 100 None =
      Inl (HTTPStatusError 500)"
    by (simp add: get_all_contacts_def make_request_def failing_second_page_def)
  have d: "make_request failing_second_page example_service
        (''deals/view/'' @ deals_view_id example_service)
        [(''page'', JInt 2), (''per_page'', JInt 100), (''sort'', JStr ''amount''),
         (''include'', JStr ''owner'')] = Inl (HTTPStatusError 500)"
    by (simp add: make_request_def failing_second_page_def)
  have m: "(2::int) \<in> set [1, 2]"
    by simp
  from fetch_failure_propagates [of failing_second_page example_service 100 "[1, 2]"
      "Inl (HTTPStatusError 500)" 2 "HTTPStatusError 500" "[1, 2]" "Inl (HTTPStatusError 500)" 2
      "HTTPStatusError 500"] failing_contacts failing_deals c d m
  show ?thesis by blast
qed




text \<open>
  C7. First part, for every run of either collector: a requested page whose metadata
  reports a \<open>total_pages\<close> of 0 or less is the last page the collector requests, and
  if that page is well formed the collector returns the list of everything collected,
  that page included. Second part, with \<open>limit\<close> for the argument \<open>max_pages\<close>:
  when every page up to \<open>limit\<close> announces more pages, so that the limit is reached
  before the data ends, the collector requests exactly the pages 1 to \<open>limit\<close>,
  raises nothing, and returns the items of those pages.
\<close>

theorem nonpositive_total_and_page_limit:
  "(get_all_contacts_paginated http self max_pages = (requested, res)
      \<and> p \<in> set requested \<and> get_all_contacts http self p 100 None = Inr result
      \<and> py_get result ''meta'' (JObj []) = Inr meta
      \<and> py_get meta ''total_pages'' (JInt 1) = Inr (JInt n) \<and> n \<le> 0 \<longrightarrow>
      last requested = p
      \<and> (well_formed_page ''contacts'' (Inr result) \<longrightarrow>
          res = Inr (concat (map (\<lambda>q. page_items ''contacts''
                                         (get_all_contacts http self q 100 None)) requested))))
   \<and> (get_all_deals_paginated http self max_pages = (requested_d, res_d)
      \<and> p_d \<in> set requested_d \<and> get_all_deals http self p_d 100 None ''owner'' = Inr result_d
      \<and> py_get result_d ''meta'' (JObj []) = Inr meta_d
      \<and> py_get meta_d ''total_pages'' (JInt 1) = Inr (JInt n_d) \<and> n_d \<le> 0 \<longrightarrow>
      last requested_d = p_d
      \<and> (well_formed_page ''deals'' (Inr result_d) \<longrightarrow>
          res_d = Inr (concat (map (\<lambda>q. page_items ''deals''
                                           (get_all_deals http self q 100 None ''owner''))
                                 requested_d))))
   \<and> ((\<forall>q. 1 \<le> q \<and> q \<le> limit \<longrightarrow>
          announces_more ''contacts'' (get_all_contacts server self q 100 None) q) \<longrightarrow>
      get_all_contacts_paginated server self limit =
        ([1..limit],
         Inr (concat (map (\<lambda>q. page_items ''contacts''
                                  (get_all_contacts server self q 100 None)) [1..limit]))))
   \<and> ((\<forall>q. 1 \<le> q \<and> q \<le> limit \<longrightarrow>
          announces_more ''deals'' (get_all_deals server self q 100 None ''owner'') q) \<longrightarrow>
      get_all_deals_paginated server self limit =
        ([1..limit],
         Inr (concat (map (\<lambda>q. page_items ''deals''
                                  (get_all_deals server self q 100 None ''owner''))
                        [1..limit]))))"
proof -
  have stop: "last rs = q
      \<and> (well_formed_page key (Inr r) \<longrightarrow>
          out = Inr (concat (map (\<lambda>q. page_items key (get_page q)) rs)))"
    if run: "paginated_loop key get_page max_pages 1 [] [] = (rs, out)"
      and q: "q \<in> set rs" and g: "get_page q = Inr r"
      and m: "py_get r ''meta'' (JObj []) = Inr mt"
      and t: "py_get mt ''total_pages'' (JInt 1) = Inr (JInt k)" and k: "k \<le> 0"
    for key get_page rs out q r mt k
  proof -
    from run_nonpositive_total [OF run] q g m t k
    have l: "last rs = q" and w: "well_formed_page key (Inr r) \<longrightarrow> (\<exists>items. out = Inr items)"
      by auto
    have "out = Inr (concat (map (\<lambda>q. page_items key (get_page q)) rs))"
      if "well_formed_page key (Inr r)"
    proof -
      from w that obtain items where o: "out = Inr items" by blast
      from run_collects [OF run [unfolded o]] show ?thesis
        using o by auto
    qed
    with l show ?thesis by blast
  qed
  have limit: "paginated_loop key get_page limit 1 [] [] =
      ([1..limit], Inr (concat (map (\<lambda>q. page_items key (get_page q)) [1..limit])))"
    if "\<forall>q. 1 \<le> q \<and> q \<le> limit \<longrightarrow> announces_more key (get_page q) q"
    for key get_page
    using run_to_limit [OF that, of "[]" "[]"] by simp
  show ?thesis
    unfolding get_all_contacts_paginated_def get_all_deals_paginated_def
    using stop [of "''contacts''" "\<lambda>page. get_all_contacts http self page 100 None"
        requested res p result meta n]
      stop [of "''deals''" "\<lambda>page. get_all_deals http self page 100 None ''owner''"
        requested_d res_d p_d result_d meta_d n_d]
      limit [of "''contacts''" "\<lambda>page. get_all_contacts server self page 100 None"]
      limit [of "''deals''" "\<lambda>page. get_all_deals server self page 100 None ''owner''"]
    by blast
qed

text \<open>
  A server whose first page reports \<open>total_pages = 0\<close>, and the server with three
  announced pages under a limit of two.
\<close>

theorem nonpositive_total_and_page_limit_witness:
  "get_all_contacts_paginated page_with_zero_total example_service 100 = ([1], Inr [item 1])
   \<and> get_all_deals_paginated page_with_zero_total example_service 100 = ([1], Inr [item 1])
   \<and> get_all_contacts page_with_zero_total example_service 1 100 None =
       Inr (example_page [item 1] (JInt 0))
   \<and> get_all_deals page_with_zero_total example_service 1 100 None ''owner'' =
       Inr (example_page [item 1] (JInt 0))
   \<and> last [1 :: int] = 1
   \<and> Inr [item 1] =
       Inr (concat (map (\<lambda>q. page_items ''contacts''
                (get_all_contacts page_with_zero_total example_service q 100 None)) [1]))
   \<and> Inr [item 1] =
       Inr (concat (map (\<lambda>q. page_items ''deals''
                (get_all_deals page_with_zero_total example_service q 100 None ''owner'')) [1]))
   \<and> get_all_contacts_paginated three_pages example_service 2 =
       ([1, 2], Inr [item 1, item 2, item 2, item 3])
   \<and> get_all_deals_paginated three_pages example_service 2 =
       ([1, 2], Inr [item 1, item 2, item 2, item 3])
   \<and> get_all_contacts_paginated three_pages example_service 2 =
       ([1..2],
        Inr (concat (map (\<lambda>q. page_items ''contacts''
                (get_all_contacts three_pages example_service q 100 None)) [1..2])))
   \<and> get_all_deals_paginated three_pages example_service 2 =
       ([1..2],
        Inr (concat (map (\<lambda>q. page_items ''deals''
                (get_all_deals three_pages example_service q 100 None ''owner'')) [1..2])))"
proof -
  let ?z = "example_page [item 1] (JInt 0)"
  have gc: "get_all_contacts page_with_zero_total example_service 1 100 None = Inr ?z"
    by (simp add: get_all_contacts_def make_request_def page_with_zero_total_def)
  have gd: "get_all_deals page_with_zero_total example_service 1 100 None ''owner'' = Inr ?z"
    by (simp add: get_all_deals_def make_request_def page_with_zero_total_def example_page_def
        enrich_result_def build_owner_map_def enrich_deal_def attach_owner_def attach_stage_def
        item_def)
  have m: "py_get ?z ''meta'' (JObj []) = Inr (JObj [(''total_pages'', JInt 0)])"
    by (simp add: example_page_def)
  have t: "py_get (JObj [(''total_pages'', JInt 0)]) ''total_pages'' (JInt 1) = Inr (JInt 0)"
    by simp
  have z: "(0::int) \<le> 0" by simp
  have i: "(1::int) \<in> set [1]" by simp
  have wc: "well_formed_page ''contacts'' (Inr ?z)"
    and wd: "well_formed_page ''deals'' (Inr ?z)"
    by (simp_all add: well_formed_page_def example_page_def)
  from nonpositive_total_and_page_limit [where http = page_with_zero_total
      and self = example_service and max_pages = 100
      and requested = "[1]" and res = "Inr [item 1]" and p = 1 and result = ?z
      and meta = "JObj [(''total_pages'', JInt 0)]" and n = 0
      and requested_d = "[1]" and res_d = "Inr [item 1]" and p_d = 1 and result_d = ?z
      and meta_d = "JObj [(''total_pages'', JInt 0)]" and n_d = 0
      and server = three_pages and limit = 2]
    zero_total_contacts zero_total_deals gc gd m t z i wc wd
    three_pages_announce_more_contacts three_pages_announce_more_deals
    page_limit_contacts page_limit_deals
  show ?thesis by blast
qed

end
